theory Spec2Isabelle
  imports Main "HOL-Library.List_Lexorder" "HOL-Library.Char_ord"
begin

section \<open>The balanced partitioner (\<open>balance_categories\<close>, bot.py lines 45--84)\<close>

text \<open>
  Python integers are unbounded, so weights and scores are \<open>int\<close>. Dividers are
  indices produced by \<open>range\<close> (or the initial zeros), hence \<open>nat\<close>.
  \<open>sys.maxsize\<close> is the largest value of a signed machine word of the platform:
  \<open>2^63 - 1\<close> on a 64-bit CPython.
\<close>

definition maxsize :: int where
  "maxsize = 2 ^ 63 - 1"

text \<open>\<open>score(arr) = sum(e**2 for e in arr)\<close>\<close>

definition score :: "int list \<Rightarrow> int" where
  "score arr = sum_list (map (\<lambda>e. e ^ 2) arr)"

text \<open>
  \<open>arr[i:j]\<close> for indices \<open>0 \<le> i\<close>, \<open>0 \<le> j\<close>: the elements from \<open>i\<close> up to (not
  including) \<open>j\<close>, clipped to the list, and empty when \<open>j \<le> i\<close>.
\<close>

definition slice :: "'a list \<Rightarrow> nat \<Rightarrow> nat \<Rightarrow> 'a list" where
  "slice arr i j = drop i (take j arr)"

text \<open>
  \<open>sum_div(arr, dividers)\<close>: the sums between dividers,
  \<open>[sum(arr[i:j]) for i, j in zip((0,) + dividers, dividers + (len(arr),))]\<close>.
\<close>

definition sum_div :: "int list \<Rightarrow> nat list \<Rightarrow> int list" where
  "sum_div arr dividers =
     map (\<lambda>(i, j). sum_list (slice arr i j))
         (zip (0 # dividers) (dividers @ [length arr]))"

text \<open>The dictionary \<open>data\<close> with its two keys \<open>"best"\<close> and \<open>"top_score"\<close>.\<close>

record data =
  best :: "nat list"
  top_score :: int

text \<open>
  \<open>bal_cat_rec(m, i, cur_indices)\<close>, with the closed-over \<open>arr\<close> and the mutable
  \<open>data\<close> passed explicitly. \<open>m\<close> is an \<open>int\<close>: for \<open>num_cats \<le> 0\<close> it starts negative
  and never meets \<open>0\<close>. The \<open>for j in range(i, arr_len)\<close> loop is a fold over
  \<open>[i..<length arr]\<close>.
\<close>

function bal_cat_rec :: "int list \<Rightarrow> int \<Rightarrow> nat \<Rightarrow> nat list \<Rightarrow> data \<Rightarrow> data" where
  "bal_cat_rec arr m i cur_indices d =
     (if m = 0 then
        (let new_score = score (sum_div arr cur_indices)
         in if new_score < top_score d
            then d\<lparr>top_score := new_score, best := cur_indices\<rparr>
            else d)
      else
        fold (\<lambda>j. bal_cat_rec arr (m - 1) (j + 1) (cur_indices @ [j]))
             [i..<length arr] d)"
  by pat_completeness auto
termination
  by (relation "measure (\<lambda>(arr, m, i, cur_indices, d). length arr - i)") auto

text \<open>
  \<open>balance_categories(arr, num_cats)\<close>. \<open>(0,) * num_divs\<close> is the empty tuple when
  \<open>num_divs \<le> 0\<close>.
\<close>

definition balance_categories :: "int list \<Rightarrow> int \<Rightarrow> nat list" where
  "balance_categories arr num_cats =
     (let num_divs = num_cats - 1;
          d = \<lparr>best = replicate (nat num_divs) 0, top_score = maxsize\<rparr>
      in best (bal_cat_rec arr num_divs 0 [] d))"

section \<open>The position reconciler (the shuffle loop of \<open>sort\<close>, bot.py lines 153--182)\<close>

text \<open>
  A channel as the loop sees it: the display name, the global ordinal \<open>position\<close> and
  the \<open>category_id\<close> of its container. The list \<open>channels\<close> of \<open>sort\<close> holds every
  channel of the project categories, ordered by name; each entry is a distinct object, so
  a channel is identified by its index in that list.
\<close>

record channel =
  name :: string
  position :: int
  category_id :: int

datatype error = IndexError

text \<open>
  Lines 166--175: the two loops over \<open>channels\<close>. Every object is visited once and its
  new position depends on its own old position only, so each loop is a \<open>map\<close>.
\<close>

definition shift_positions :: "int \<Rightarrow> int \<Rightarrow> channel list \<Rightarrow> channel list" where
  "shift_positions old_pos new_pos channels =
     (if old_pos > new_pos then
        map (\<lambda>other_channel.
               if new_pos \<le> position other_channel \<and> position other_channel < old_pos
               then other_channel\<lparr>position := position other_channel + 1\<rparr>
               else other_channel) channels
      else
        map (\<lambda>other_channel.
               if old_pos < position other_channel \<and> position other_channel \<le> new_pos
               then other_channel\<lparr>position := position other_channel - 1\<rparr>
               else other_channel) channels)"

text \<open>
  Lines 165--178: the body of the \<open>if\<close>. \<open>k\<close> is the index of \<open>channel\<close> in
  \<open>channels\<close>, \<open>category\<close> is \<open>category.id\<close>.
\<close>

definition move_channel :: "nat \<Rightarrow> int \<Rightarrow> int \<Rightarrow> channel list \<Rightarrow> channel list" where
  "move_channel k category new_pos channels =
     (let old_pos = position (channels ! k);
          shifted = shift_positions old_pos new_pos channels
      in shifted[k := (shifted ! k)\<lparr>category_id := category, position := new_pos\<rparr>])"

text \<open>
  Lines 155--178: one iteration of the inner loop, for the channel with index \<open>k\<close> that
  belongs at rank \<open>i\<close> of \<open>category\<close>. \<open>cat_channels\<close> is the value of
  \<open>category.channels\<close>, given as the indices of its channels in \<open>channels\<close>.
  \<open>cat_channels[-1]\<close> raises \<open>IndexError\<close> on an empty list. The remote call
  \<open>channel.edit\<close> of lines 180--182 is the directory service's and is not modelled.
\<close>

definition sort_step ::
  "int \<Rightarrow> nat list \<Rightarrow> nat \<Rightarrow> nat \<Rightarrow> channel list \<Rightarrow> error + channel list" where
  "sort_step category cat_channels i k channels =
     (if length cat_channels > i then
        (let target_channel = cat_channels ! i;
             new_pos = position (channels ! target_channel);
             needs_move = (target_channel \<noteq> k)
         in if category_id (channels ! k) \<noteq> category \<or> needs_move
            then Inr (move_channel k category new_pos channels)
            else Inr channels)
      else if cat_channels = [] then Inl IndexError
      else
        (let new_pos = position (channels ! last cat_channels) + 1;
             needs_move = (last cat_channels \<noteq> k)
         in if category_id (channels ! k) \<noteq> category \<or> needs_move
            then Inr (move_channel k category new_pos channels)
            else Inr channels))"

text \<open>
  Modelled from the spec: \<open>listItems(container)\<close>, the ordered sequence of the items of
  a container (\<open>category.channels\<close> of the chat-platform client, which is not part of
  the repository): the channels whose \<open>category_id\<close> is the container's, in position
  order.
\<close>

definition category_channels :: "int \<Rightarrow> channel list \<Rightarrow> nat list" where
  "category_channels category channels =
     sort_key (\<lambda>k. position (channels ! k))
       (filter (\<lambda>k. category_id (channels ! k) = category) [0..<length channels])"

text \<open>
  The iteration with \<open>cat_channels = category.channels\<close> read from the current state,
  as line 156 does.
\<close>

definition sort_channel :: "int \<Rightarrow> nat \<Rightarrow> nat \<Rightarrow> channel list \<Rightarrow> error + channel list" where
  "sort_channel category i k channels =
     sort_step category (category_channels category channels) i k channels"

text \<open>
  \<open>reposition_channel(channel, project_categories)\<close>, lines 279--297, used when a
  channel is renamed or restored. \<open>others\<close> is the generator of lines 280--283: the
  channels of the project categories except \<open>channel\<close>. The loop walks them in name
  order and ends with the category and the position it asks the remote \<open>channel.edit\<close>
  for; it changes no position itself. The \<open>else\<close> of the \<open>for\<close> runs when no \<open>break\<close>
  did. Names compare as Python strings do, character by character.
\<close>

fun reposition_loop ::
  "string \<Rightarrow> channel list \<Rightarrow> int option \<Rightarrow> int \<Rightarrow> int option \<times> int" where
  "reposition_loop channel_name [] category position' = (category, position' + 1)"
| "reposition_loop channel_name (c # channels) category position' =
     (if channel_name < name c
      then (if category = None then Some (category_id c) else category, position c)
      else reposition_loop channel_name channels (Some (category_id c)) (position c))"

definition reposition_channel :: "string \<Rightarrow> channel list \<Rightarrow> int option \<times> int" where
  "reposition_channel channel_name others =
     reposition_loop channel_name (sort_key name others) None 0"

text \<open>
  The positions of a state form the contiguous, duplicate-free range \<open>0..n-1\<close>, where
  \<open>n\<close> is the number of channels.
\<close>

definition dense :: "channel list \<Rightarrow> bool" where
  "dense channels \<longleftrightarrow>
     distinct (map position channels) \<and>
     set (map position channels) = {0..<int (length channels)}"

section \<open>Costs, boundary sets and sample states\<close>

text \<open>
  The cost of a boundary set: the sum of the squares of the segment sums, with the
  implicit boundaries \<open>0\<close> and \<open>n\<close> at the ends. It is what line 75 computes.
\<close>

definition cost :: "int list \<Rightarrow> nat list \<Rightarrow> int" where
  "cost arr dividers = score (sum_div arr dividers)"

text \<open>
  The boundary sets of the specification: \<open>k\<close> strictly increasing indices drawn from
  \<open>[0, n]\<close>.
\<close>

definition valid_boundaries :: "nat \<Rightarrow> nat \<Rightarrow> nat list \<Rightarrow> bool" where
  "valid_boundaries n k bs \<longleftrightarrow> length bs = k \<and> sorted_wrt (<) bs \<and> list_all (\<lambda>b. b \<le> n) bs"

text \<open>The four channels of the end-to-end scenario, all in the category with id \<open>1\<close>.\<close>

definition fruit :: "channel list" where
  "fruit = [\<lparr>name = ''Apple'', position = 0, category_id = 1\<rparr>,
            \<lparr>name = ''Banana'', position = 1, category_id = 1\<rparr>,
            \<lparr>name = ''Cherry'', position = 2, category_id = 1\<rparr>,
            \<lparr>name = ''Date'', position = 3, category_id = 1\<rparr>]"

text \<open>
  A guild with two project categories: category \<open>1\<close> holds \<open>a\<close>, \<open>b\<close> and \<open>d\<close> at
  positions \<open>0\<close>, \<open>1\<close>, \<open>2\<close>, category \<open>2\<close> holds \<open>c\<close> at position \<open>3\<close>. The list is in
  name order, as \<open>channels\<close> of \<open>sort\<close> is.
\<close>

definition two_categories :: "channel list" where
  "two_categories = [\<lparr>name = ''a'', position = 0, category_id = 1\<rparr>,
                     \<lparr>name = ''b'', position = 1, category_id = 1\<rparr>,
                     \<lparr>name = ''c'', position = 3, category_id = 2\<rparr>,
                     \<lparr>name = ''d'', position = 2, category_id = 1\<rparr>]"

section \<open>The enumeration of the search, unfolded\<close>

text \<open>
  Lines 75--78, the branch \<open>m == 0\<close> of \<open>bal_cat_rec\<close>: score one complete candidate
  and record it when it beats the best score so far.
\<close>

definition record_candidate :: "int list \<Rightarrow> nat list \<Rightarrow> data \<Rightarrow> data" where
  "record_candidate arr cur_indices d =
     (let new_score = score (sum_div arr cur_indices)
      in if new_score < top_score d
         then d\<lparr>top_score := new_score, best := cur_indices\<rparr>
         else d)"

text \<open>
  The candidates that \<open>bal_cat_rec(m, i, ...)\<close> completes, in the order in which the
  nested loops of lines 80--81 reach them: the first divider \<open>j\<close> runs over
  \<open>range(i, n)\<close>, the remaining \<open>m - 1\<close> dividers start from \<open>j + 1\<close>.
\<close>

fun cands :: "nat \<Rightarrow> nat \<Rightarrow> nat \<Rightarrow> nat list list" where
  "cands n 0 i = [[]]"
| "cands n (Suc m) i = concat (map (\<lambda>j. map ((#) j) (cands n m (Suc j))) [i..<n])"

text \<open>
  The cost, segment by segment: \<open>p\<close> is the start of the current segment, the dividers
  still to come close it and the ones after it.
\<close>

fun cost_from :: "int list \<Rightarrow> nat \<Rightarrow> nat list \<Rightarrow> int" where
  "cost_from arr p [] = (sum_list (slice arr p (length arr)))\<^sup>2"
| "cost_from arr p (b # bs) = (sum_list (slice arr p b))\<^sup>2 + cost_from arr b bs"

section \<open>General lemmas\<close>

declare bal_cat_rec.simps [simp del]

lemma fold_unchanged:
  "(\<And>x s. x \<in> set xs \<Longrightarrow> f x s = s) \<Longrightarrow> fold f xs s = s"
  by (induction xs arbitrary: s) simp_all

lemma fold_invariant:
  "P s \<Longrightarrow> (\<And>x s. x \<in> set xs \<Longrightarrow> P s \<Longrightarrow> P (f x s)) \<Longrightarrow> P (fold f xs s)"
  by (induction xs arbitrary: s) simp_all

lemma fold_concat_map:
  "fold f (concat (map g xs)) s = fold (\<lambda>x. fold f (g x)) xs s"
  by (induction xs arbitrary: s) simp_all

section \<open>The reconciler: shifts, no-op, order\<close>

lemma length_shift_positions [simp]:
  "length (shift_positions old_pos new_pos channels) = length channels"
  by (simp add: shift_positions_def)

lemma length_move_channel [simp]:
  "length (move_channel k category new_pos channels) = length channels"
  by (simp add: move_channel_def Let_def)

lemma position_shift_positions:
  "j < length channels \<Longrightarrow>
   position (shift_positions old_pos new_pos channels ! j) =
     (if new_pos < old_pos \<and> new_pos \<le> position (channels ! j) \<and> position (channels ! j) < old_pos
      then position (channels ! j) + 1
      else if old_pos < new_pos \<and> old_pos < position (channels ! j) \<and> position (channels ! j) \<le> new_pos
      then position (channels ! j) - 1
      else position (channels ! j))"
  by (auto simp: shift_positions_def)

lemma position_move_channel_other:
  "j < length channels \<Longrightarrow> j \<noteq> k \<Longrightarrow>
   position (move_channel k category new_pos channels ! j) =
     position (shift_positions (position (channels ! k)) new_pos channels ! j)"
  by (simp add: move_channel_def Let_def)

lemma position_move_channel_moved:
  "k < length channels \<Longrightarrow> position (move_channel k category new_pos channels ! k) = new_pos"
  by (simp add: move_channel_def Let_def)

text \<open>
  Claim C2. Before: Apple at 0, Banana at 1, Cherry at 2, Date at 3, one container.
  Apple (index \<open>0\<close> of the name-ordered list) is placed at the rank right after Cherry,
  which is rank \<open>2\<close> of the resulting order Banana, Cherry, Apple, Date. The iteration
  of the shuffle loop for that rank leaves Apple at 2, Banana at 0, Cherry at 1 and Date
  at 3.
\<close>

theorem apple_after_cherry:
  "sort_channel 1 2 0 fruit =
     Inr [\<lparr>name = ''Apple'', position = 2, category_id = 1\<rparr>,
          \<lparr>name = ''Banana'', position = 0, category_id = 1\<rparr>,
          \<lparr>name = ''Cherry'', position = 1, category_id = 1\<rparr>,
          \<lparr>name = ''Date'', position = 3, category_id = 1\<rparr>]"
  by code_simp

text \<open>
  Claim C3. A move of the channel with index \<open>k\<close> from its position \<open>old_pos\<close> to
  \<open>new_pos\<close> keeps the number of channels, puts the moved channel at \<open>new_pos\<close>, and
  changes the position of any other channel \<open>j\<close> as follows: when \<open>new_pos < old_pos\<close>
  and its position lies in \<open>[new_pos, old_pos)\<close> it goes up by one; when
  \<open>old_pos < new_pos\<close> and its position lies in \<open>(old_pos, new_pos]\<close> it goes down by
  one; in every other case it stays as it was.
\<close>

theorem move_channel_shifts:
  assumes "k < length channels"
  shows "length (move_channel k category new_pos channels) = length channels \<and>
         position (move_channel k category new_pos channels ! k) = new_pos \<and>
         (\<forall>j < length channels. j \<noteq> k \<longrightarrow>
            position (move_channel k category new_pos channels ! j) =
              (if new_pos < position (channels ! k) \<and>
                  new_pos \<le> position (channels ! j) \<and>
                  position (channels ! j) < position (channels ! k)
               then position (channels ! j) + 1
               else if position (channels ! k) < new_pos \<and>
                       position (channels ! k) < position (channels ! j) \<and>
                       position (channels ! j) \<le> new_pos
               then position (channels ! j) - 1
               else position (channels ! j)))"
  using assms
  by (simp add: position_move_channel_moved position_move_channel_other position_shift_positions)

theorem move_channel_shifts_witness:
  "(0::nat) < length fruit \<and>
   length (move_channel 0 1 2 fruit) = 4 \<and>
   map position (move_channel 0 1 2 fruit) = [2, 0, 1, 3] \<and>
   map position (move_channel 3 1 1 fruit) = [0, 2, 3, 1]"
proof -
  have k: "(0::nat) < length fruit" by (simp add: fruit_def)
  have "map position (move_channel 0 1 2 fruit) = [2, 0, 1, 3]" by code_simp
  moreover have "map position (move_channel 3 1 1 fruit) = [0, 2, 3, 1]" by code_simp
  moreover have "length fruit = 4" by (simp add: fruit_def)
  ultimately show ?thesis
    using k move_channel_shifts [OF k, of 1 2] by simp
qed

text \<open>
  Claim C7. When the channel already is the one at rank \<open>i\<close> of \<open>category.channels\<close>
  and already belongs to that category, the iteration changes nothing: no position of any
  channel is adjusted and the channel keeps its position.
\<close>

theorem sort_step_noop:
  assumes "i < length cat_channels" and "cat_channels ! i = k"
    and "category_id (channels ! k) = category"
  shows "sort_step category cat_channels i k channels = Inr channels"
  using assms by (simp add: sort_step_def)

theorem sort_step_noop_witness:
  "(1::nat) < length (category_channels 1 fruit) \<and> category_channels 1 fruit ! 1 = 1 \<and>
   category_id (fruit ! 1) = 1 \<and> sort_channel 1 1 1 fruit = Inr fruit"
proof -
  have cc: "category_channels 1 fruit = [0, 1, 2, 3]" by code_simp
  have h1: "(1::nat) < length (category_channels 1 fruit)" by (simp add: cc)
  have h2: "category_channels 1 fruit ! 1 = 1" by (simp add: cc)
  have h3: "category_id (fruit ! 1) = 1" by (simp add: fruit_def)
  from sort_step_noop [OF h1 h2 h3] h1 h2 h3 show ?thesis
    by (simp add: sort_channel_def)
qed

text \<open>
  What \<open>reposition_channel\<close> asks for: the position of the first sibling whose name
  sorts after the channel's, or one past the position of the last sibling.
\<close>

lemma reposition_loop_before:
  "\<forall>x\<in>set pre. \<not> channel_name < name x \<Longrightarrow> channel_name < name c \<Longrightarrow>
   snd (reposition_loop channel_name (pre @ c # post) category pos) = position c"
  by (induction pre arbitrary: category pos) simp_all

lemma reposition_loop_last:
  "\<forall>x\<in>set channels. \<not> channel_name < name x \<Longrightarrow> channels \<noteq> [] \<Longrightarrow>
   reposition_loop channel_name channels category pos =
     (Some (category_id (last channels)), position (last channels) + 1)"
  by (induction channels arbitrary: category pos) auto

lemma reposition_channel_fruit:
  "reposition_channel ''Apple'' (tl fruit) = (Some 1, 1) \<and>
   reposition_channel ''Zucchini'' fruit = (Some 1, 4)"
  by code_simp

lemma move_channel_same_position:
  "k < length channels \<Longrightarrow>
   map position (move_channel k category (position (channels ! k)) channels) = map position channels"
proof (rule nth_equalityI)
  show "length (map position (move_channel k category (position (channels ! k)) channels))
          = length (map position channels)"
    by simp
next
  fix j
  assume "k < length channels"
    and "j < length (map position (move_channel k category (position (channels ! k)) channels))"
  then show "map position (move_channel k category (position (channels ! k)) channels) ! j
               = map position channels ! j"
    by (cases "j = k")
       (simp_all add: position_move_channel_moved position_move_channel_other
          position_shift_positions)
qed

lemma shift_keeps_order:
  assumes "position (channels ! i) \<noteq> old_pos" "position (channels ! j) \<noteq> old_pos"
    and "i < length channels" "j < length channels"
  shows "(position (shift_positions old_pos new_pos channels ! i)
            < position (shift_positions old_pos new_pos channels ! j))
         = (position (channels ! i) < position (channels ! j))"
proof -
  define p q where "p = position (channels ! i)" and "q = position (channels ! j)"
  have "p \<noteq> old_pos" "q \<noteq> old_pos"
    using assms by (simp_all add: p_def q_def)
  then have "((if new_pos < old_pos \<and> new_pos \<le> p \<and> p < old_pos then p + 1
               else if old_pos < new_pos \<and> old_pos < p \<and> p \<le> new_pos then p - 1 else p)
              < (if new_pos < old_pos \<and> new_pos \<le> q \<and> q < old_pos then q + 1
                 else if old_pos < new_pos \<and> old_pos < q \<and> q \<le> new_pos then q - 1 else q))
             = (p < q)"
    by auto
  then show ?thesis
    using assms by (simp only: position_shift_positions p_def q_def)
qed

lemma shift_keeps_le:
  assumes "i < length channels" "j < length channels"
    and "position (channels ! i) \<le> position (channels ! j)"
  shows "position (shift_positions old_pos new_pos channels ! i)
           \<le> position (shift_positions old_pos new_pos channels ! j)"
proof -
  define p q where "p = position (channels ! i)" and "q = position (channels ! j)"
  have "p \<le> q" using assms by (simp add: p_def q_def)
  then have "(if new_pos < old_pos \<and> new_pos \<le> p \<and> p < old_pos then p + 1
              else if old_pos < new_pos \<and> old_pos < p \<and> p \<le> new_pos then p - 1 else p)
             \<le> (if new_pos < old_pos \<and> new_pos \<le> q \<and> q < old_pos then q + 1
                 else if old_pos < new_pos \<and> old_pos < q \<and> q \<le> new_pos then q - 1 else q)"
    by auto
  then show ?thesis
    using assms by (simp only: position_shift_positions p_def q_def)
qed

text \<open>
  Two channels that do not sit at the position of the moved one keep their order.
\<close>

lemma move_channel_order_apart:
  assumes "k < length channels" "i < length channels" "j < length channels"
    and "position (channels ! i) \<noteq> position (channels ! k)"
    and "position (channels ! j) \<noteq> position (channels ! k)"
  shows "(position (move_channel k category new_pos channels ! i)
            < position (move_channel k category new_pos channels ! j))
         = (position (channels ! i) < position (channels ! j))"
proof -
  from assms(4,5) have "i \<noteq> k" "j \<noteq> k" by auto
  with assms show ?thesis
    by (simp add: position_move_channel_other shift_keeps_order)
qed

text \<open>
  Claim C8. The positions of the items are duplicate-free, as the data model has them.
  A move of channel \<open>k\<close> to any target position keeps the order of every two channels
  \<open>i\<close> and \<open>j\<close> other than \<open>k\<close>: \<open>i\<close> is before \<open>j\<close> after the move exactly when it was
  before.
\<close>

theorem move_channel_keeps_order:
  assumes "distinct (map position channels)"
    and "k < length channels" "i < length channels" "j < length channels"
    and "i \<noteq> k" "j \<noteq> k"
  shows "(position (move_channel k category new_pos channels ! i)
            < position (move_channel k category new_pos channels ! j))
         = (position (channels ! i) < position (channels ! j))"
proof -
  have "position (channels ! i) \<noteq> position (channels ! k)"
    using assms by (metis distinct_conv_nth length_map nth_map)
  moreover have "position (channels ! j) \<noteq> position (channels ! k)"
    using assms by (metis distinct_conv_nth length_map nth_map)
  ultimately show ?thesis
    using assms(2-4) by (rule move_channel_order_apart [rotated 3])
qed

theorem move_channel_keeps_order_witness:
  "distinct (map position fruit) \<and> (0::nat) < length fruit \<and> (1::nat) < length fruit \<and>
   (3::nat) < length fruit \<and> (1::nat) \<noteq> 0 \<and> (3::nat) \<noteq> 0 \<and>
   position (fruit ! 1) < position (fruit ! 3) \<and>
   position (move_channel 0 1 2 fruit ! 1) < position (move_channel 0 1 2 fruit ! 3)"
proof -
  have d: "distinct (map position fruit)" by (simp add: fruit_def)
  have k: "(0::nat) < length fruit" and i: "(1::nat) < length fruit"
    and j: "(3::nat) < length fruit" by (simp_all add: fruit_def)
  have less: "position (fruit ! 1) < position (fruit ! 3)" by (simp add: fruit_def)
  from move_channel_keeps_order [OF d k i j, of 1 2] d k i j less show ?thesis by simp
qed

text \<open>In any state, no pair of other channels is ever inverted by a move.\<close>

lemma move_channel_never_inverts:
  assumes "k < length channels" "i < length channels" "j < length channels"
    and "i \<noteq> k" "j \<noteq> k"
    and "position (channels ! i) \<le> position (channels ! j)"
  shows "position (move_channel k category new_pos channels ! i)
           \<le> position (move_channel k category new_pos channels ! j)"
  using assms by (simp add: position_move_channel_other shift_keeps_le)

text \<open>
  A move to a target position inside \<open>0..n-1\<close> is a rotation of the positions between
  the old and the new one, so it keeps the positions the range \<open>0..n-1\<close>.
\<close>

lemma map_position_move_channel:
  assumes "distinct (map position channels)" "k < length channels"
  shows "map position (move_channel k category new_pos channels) =
         map (\<lambda>p. if p = position (channels ! k) then new_pos
                   else if new_pos < position (channels ! k) \<and> new_pos \<le> p \<and> p < position (channels ! k)
                   then p + 1
                   else if position (channels ! k) < new_pos \<and> position (channels ! k) < p \<and> p \<le> new_pos
                   then p - 1 else p)
             (map position channels)"
proof (rule nth_equalityI)
  show "length (map position (move_channel k category new_pos channels)) =
        length (map (\<lambda>p. if p = position (channels ! k) then new_pos
                   else if new_pos < position (channels ! k) \<and> new_pos \<le> p \<and> p < position (channels ! k)
                   then p + 1
                   else if position (channels ! k) < new_pos \<and> position (channels ! k) < p \<and> p \<le> new_pos
                   then p - 1 else p)
             (map position channels))"
    by simp
next
  fix j assume "j < length (map position (move_channel k category new_pos channels))"
  then have j: "j < length channels" by simp
  show "map position (move_channel k category new_pos channels) ! j =
        map (\<lambda>p. if p = position (channels ! k) then new_pos
                   else if new_pos < position (channels ! k) \<and> new_pos \<le> p \<and> p < position (channels ! k)
                   then p + 1
                   else if position (channels ! k) < new_pos \<and> position (channels ! k) < p \<and> p \<le> new_pos
                   then p - 1 else p)
             (map position channels) ! j"
  proof (cases "j = k")
    case True
    with j show ?thesis by (simp add: position_move_channel_moved)
  next
    case False
    then have "position (channels ! j) \<noteq> position (channels ! k)"
      using assms j by (metis distinct_conv_nth length_map nth_map)
    with False j show ?thesis
      by (simp add: position_move_channel_other position_shift_positions)
  qed
qed

lemma rotate_inj:
  fixes a b :: int
  shows "inj (\<lambda>p. if p = a then b
                   else if b < a \<and> b \<le> p \<and> p < a then p + 1
                   else if a < b \<and> a < p \<and> p \<le> b then p - 1 else p)"
  by (auto simp: inj_def split: if_splits)

lemma rotate_image:
  fixes a b :: int
  assumes "0 \<le> a" "a < n" "0 \<le> b" "b < n"
  shows "(\<lambda>p. if p = a then b
              else if b < a \<and> b \<le> p \<and> p < a then p + 1
              else if a < b \<and> a < p \<and> p \<le> b then p - 1 else p) ` {0..<n} = {0..<n}"
proof (intro set_eqI iffI)
  fix y
  assume "y \<in> (\<lambda>p. if p = a then b
              else if b < a \<and> b \<le> p \<and> p < a then p + 1
              else if a < b \<and> a < p \<and> p \<le> b then p - 1 else p) ` {0..<n}"
  with assms show "y \<in> {0..<n}" by (auto split: if_splits)
next
  fix y assume y: "y \<in> {0..<n}"
  define x where "x = (if y = b then a
                       else if b < a \<and> b < y \<and> y \<le> a then y - 1
                       else if a < b \<and> a \<le> y \<and> y < b then y + 1 else y)"
  have "x \<in> {0..<n}" using assms y by (auto simp: x_def)
  moreover have "y = (if x = a then b
              else if b < a \<and> b \<le> x \<and> x < a then x + 1
              else if a < b \<and> a < x \<and> x \<le> b then x - 1 else x)"
    by (auto simp: x_def)
  ultimately show "y \<in> (\<lambda>p. if p = a then b
              else if b < a \<and> b \<le> p \<and> p < a then p + 1
              else if a < b \<and> a < p \<and> p \<le> b then p - 1 else p) ` {0..<n}"
    by (rule rev_image_eqI)
qed

lemma move_channel_dense:
  assumes "dense channels" "k < length channels"
    and "0 \<le> new_pos" "new_pos < int (length channels)"
  shows "dense (move_channel k category new_pos channels)"
proof -
  let ?old = "position (channels ! k)"
  let ?g = "\<lambda>p. if p = ?old then new_pos
                else if new_pos < ?old \<and> new_pos \<le> p \<and> p < ?old then p + 1
                else if ?old < new_pos \<and> ?old < p \<and> p \<le> new_pos then p - 1 else p"
  let ?ps = "map position channels"
  from assms(1) have d: "distinct ?ps" and s: "set ?ps = {0..<int (length channels)}"
    by (simp_all only: dense_def)
  have "?ps ! k \<in> set ?ps" using assms(2) by (intro nth_mem) simp
  then have "?old \<in> {0..<int (length channels)}"
    using assms(2) by (simp only: s nth_map)
  then have old: "0 \<le> ?old" "?old < int (length channels)" by simp_all
  have moved: "map position (move_channel k category new_pos channels) = map ?g ?ps"
    by (rule map_position_move_channel [OF d assms(2)])
  have "inj_on ?g (set ?ps)"
    by (rule inj_on_subset [OF rotate_inj subset_UNIV])
  with d have "distinct (map ?g ?ps)"
    by (simp only: distinct_map simp_thms)
  moreover have "set (map ?g ?ps) = {0..<int (length channels)}"
  proof -
    have "set (map ?g ?ps) = ?g ` set ?ps" by (rule set_map)
    also have "\<dots> = ?g ` {0..<int (length channels)}" by (simp only: s)
    also have "\<dots> = {0..<int (length channels)}"
      by (rule rotate_image [OF old assms(3,4)])
    finally show ?thesis .
  qed
  ultimately show ?thesis
    by (simp only: dense_def moved length_move_channel simp_thms)
qed

text \<open>
  The same for one iteration of the loop: the positions stay the range \<open>0..n-1\<close>
  whenever the target is the position of a present channel, or one past the last sibling
  and still inside the range.
\<close>

lemma sort_step_dense:
  assumes "dense channels" "k < length channels" "\<forall>c\<in>set cat_channels. c < length channels"
    and "sort_step category cat_channels i k channels = Inr channels'"
    and "i < length cat_channels \<or>
         position (channels ! last cat_channels) + 1 < int (length channels)"
  shows "dense channels'"
proof -
  have in_range: "0 \<le> position (channels ! c) \<and> position (channels ! c) < int (length channels)"
    if "c < length channels" for c
  proof -
    have "map position channels ! c \<in> set (map position channels)"
      using that by (intro nth_mem) simp
    then have "position (channels ! c) \<in> {0..<int (length channels)}"
      using assms(1) that by (simp only: dense_def nth_map)
    then show ?thesis by simp
  qed
  show ?thesis
  proof (cases "i < length cat_channels")
    case True
    then have "cat_channels ! i < length channels" using assms(3) by simp
    from in_range [OF this] assms(1,2,4) True show ?thesis
      by (auto simp: sort_step_def Let_def move_channel_dense split: if_splits)
  next
    case False
    with assms(4) have ne: "cat_channels \<noteq> []"
      by (auto simp: sort_step_def split: if_splits)
    then have "last cat_channels < length channels" using assms(3) by simp
    from in_range [OF this] assms(1,2,4,5) False ne show ?thesis
      by (auto simp: sort_step_def Let_def move_channel_dense split: if_splits)
  qed
qed

text \<open>
  In the state \<open>two_categories\<close>, with the targets \<open>a\<close>, \<open>b\<close> for category \<open>1\<close> and
  \<open>c\<close>, \<open>d\<close> for category \<open>2\<close>, the iterations for \<open>a\<close>, \<open>b\<close> and \<open>c\<close> find each channel in
  its place and move nothing.
\<close>

lemma two_categories_first_iterations:
  "sort_channel 1 0 0 two_categories = Inr two_categories \<and>
   sort_channel 1 1 1 two_categories = Inr two_categories \<and>
   sort_channel 2 0 2 two_categories = Inr two_categories"
  by code_simp

text \<open>
  Claim C4, at a state the loop reaches. The positions are the range \<open>0..3\<close>. Category
  \<open>2\<close> is to hold \<open>c\<close> and \<open>d\<close>; the iteration for \<open>d\<close> (rank \<open>1\<close>) finds only \<open>c\<close> in
  the category, takes \<open>new_pos\<close> one past \<open>c\<close>, which is \<open>4\<close>, and moves \<open>d\<close> down from
  \<open>2\<close>: \<open>c\<close> drops to \<open>2\<close> and \<open>d\<close> lands on \<open>4\<close>. Position \<open>3\<close> is left empty, so the
  positions are no longer the range \<open>0..3\<close>. For a target inside the range the positions
  stay dense (\<open>move_channel_dense\<close>, \<open>sort_step_dense\<close>).
\<close>

theorem sort_channel_leaves_gap:
  "dense two_categories \<and>
   sort_channel 2 1 3 two_categories =
     Inr [\<lparr>name = ''a'', position = 0, category_id = 1\<rparr>,
          \<lparr>name = ''b'', position = 1, category_id = 1\<rparr>,
          \<lparr>name = ''c'', position = 2, category_id = 2\<rparr>,
          \<lparr>name = ''d'', position = 4, category_id = 2\<rparr>] \<and>
   \<not> dense [\<lparr>name = ''a'', position = 0, category_id = 1\<rparr>,
            \<lparr>name = ''b'', position = 1, category_id = 1\<rparr>,
            \<lparr>name = ''c'', position = 2, category_id = 2\<rparr>,
            \<lparr>name = ''d'', position = 4, category_id = 2\<rparr>]"
  by code_simp

section \<open>The partitioner: what every call returns\<close>

lemma bal_cat_rec_out_of_range:
  "m < 0 \<or> int (length arr - i) < m \<Longrightarrow> bal_cat_rec arr m i cur_indices d = d"
proof (induction arr m i cur_indices d rule: bal_cat_rec.induct)
  case (1 arr m i cur_indices d)
  from "1.prems" have m: "m \<noteq> 0" by auto
  have "fold (\<lambda>j. bal_cat_rec arr (m - 1) (j + 1) (cur_indices @ [j])) [i..<length arr] d = d"
  proof (rule fold_unchanged)
    fix j and s :: data assume j: "j \<in> set [i..<length arr]"
    then have "m - 1 < 0 \<or> int (length arr - (j + 1)) < m - 1"
      using "1.prems" by auto
    with "1.IH" [OF m j] show "bal_cat_rec arr (m - 1) (j + 1) (cur_indices @ [j]) s = s"
      by simp
  qed
  with m show ?case by (subst bal_cat_rec.simps) simp
qed

lemma bal_cat_rec_best_below:
  "\<forall>b\<in>set cur_indices. b < length arr \<Longrightarrow> \<forall>b\<in>set (best d). b < length arr \<Longrightarrow>
   \<forall>b\<in>set (best (bal_cat_rec arr m i cur_indices d)). b < length arr"
proof (induction arr m i cur_indices d rule: bal_cat_rec.induct)
  case (1 arr m i cur_indices d)
  show ?case
  proof (cases "m = 0")
    case True
    with "1.prems" show ?thesis by (subst bal_cat_rec.simps) (simp add: Let_def)
  next
    case False
    have "\<forall>b\<in>set (best (fold (\<lambda>j. bal_cat_rec arr (m - 1) (j + 1) (cur_indices @ [j]))
                              [i..<length arr] d)). b < length arr"
    proof (rule fold_invariant [where P = "\<lambda>s. \<forall>b\<in>set (best s). b < length arr"])
      show "\<forall>b\<in>set (best d). b < length arr" by (rule "1.prems")
    next
      fix j and s :: data
      assume j: "j \<in> set [i..<length arr]" and s: "\<forall>b\<in>set (best s). b < length arr"
      from j "1.prems"(1) have "\<forall>b\<in>set (cur_indices @ [j]). b < length arr" by auto
      from "1.IH" [OF False j this s]
      show "\<forall>b\<in>set (best (bal_cat_rec arr (m - 1) (j + 1) (cur_indices @ [j]) s)). b < length arr" .
    qed
    with False show ?thesis by (subst bal_cat_rec.simps) simp
  qed
qed

lemma bal_cat_rec_best_length:
  "length (best d) = n \<Longrightarrow> int (length cur_indices) + m = int n \<Longrightarrow>
   length (best (bal_cat_rec arr m i cur_indices d)) = n"
proof (induction arr m i cur_indices d rule: bal_cat_rec.induct)
  case (1 arr m i cur_indices d)
  show ?case
  proof (cases "m = 0")
    case True
    with "1.prems" show ?thesis by (subst bal_cat_rec.simps) (simp add: Let_def)
  next
    case False
    have "length (best (fold (\<lambda>j. bal_cat_rec arr (m - 1) (j + 1) (cur_indices @ [j]))
                              [i..<length arr] d)) = n"
    proof (rule fold_invariant [where P = "\<lambda>s. length (best s) = n"])
      show "length (best d) = n" by (rule "1.prems")
    next
      fix j and s :: data
      assume j: "j \<in> set [i..<length arr]" and s: "length (best s) = n"
      from "1.prems"(2) have "int (length (cur_indices @ [j])) + (m - 1) = int n" by simp
      from "1.IH" [OF False j s this]
      show "length (best (bal_cat_rec arr (m - 1) (j + 1) (cur_indices @ [j]) s)) = n" .
    qed
    with False show ?thesis by (subst bal_cat_rec.simps) simp
  qed
qed

lemma length_balance_categories:
  "length (balance_categories arr num_cats) = nat (num_cats - 1)"
proof (cases "num_cats - 1 < 0")
  case True
  then show ?thesis
    by (simp add: balance_categories_def Let_def bal_cat_rec_out_of_range)
next
  case False
  then show ?thesis
    by (simp add: balance_categories_def Let_def bal_cat_rec_best_length)
qed

text \<open>
  Claim C10. For a weight sequence of length \<open>n \<ge> 1\<close> and a valid group count of at
  least \<open>2\<close>, every returned boundary is at most \<open>n - 1\<close>, and the last segment, from the
  last boundary to \<open>n\<close>, spans at least one index.
\<close>

theorem balance_categories_below_length:
  assumes "1 \<le> length arr" and "2 \<le> num_cats" and "num_cats \<le> int (length arr) + 1"
  shows "(\<forall>b\<in>set (balance_categories arr num_cats). b \<le> length arr - 1) \<and>
         slice arr (last (balance_categories arr num_cats)) (length arr) \<noteq> []"
proof -
  have below: "\<forall>b\<in>set (balance_categories arr num_cats). b < length arr"
    unfolding balance_categories_def Let_def
    by (rule bal_cat_rec_best_below) (use assms in auto)
  have "balance_categories arr num_cats \<noteq> []"
    using length_balance_categories [of arr num_cats] assms by auto
  then have "last (balance_categories arr num_cats) < length arr"
    using below by simp
  then show ?thesis using below by (auto simp: slice_def)
qed

theorem balance_categories_below_length_witness:
  "(1::nat) \<le> length [5, 3, 3, 5 :: int] \<and> (2::int) \<le> 3 \<and>
   (3::int) \<le> int (length [5, 3, 3, 5 :: int]) + 1 \<and>
   balance_categories [5, 3, 3, 5] 3 = [1, 3] \<and>
   slice [5, 3, 3, 5 :: int] (last (balance_categories [5, 3, 3, 5] 3)) 4 \<noteq> []"
proof -
  have h1: "(1::nat) \<le> length [5, 3, 3, 5 :: int]" by simp
  have h2: "(2::int) \<le> 3" by simp
  have h3: "(3::int) \<le> int (length [5, 3, 3, 5 :: int]) + 1" by simp
  have r: "balance_categories [5, 3, 3, 5] 3 = [1, 3]" by code_simp
  have s: "slice [5, 3, 3, 5 :: int] 3 4 \<noteq> []" by code_simp
  from balance_categories_below_length [OF h1 h2 h3] r s show ?thesis by simp
qed

text \<open>
  Claim C9, as the code behaves. No call raises an error. A group count of \<open>0\<close> or less
  gives the empty list, and a group count with more dividers than the sequence has
  indices (\<open>groupCount - 1 > n\<close>) gives \<open>groupCount - 1\<close> zeros, the initial value of
  \<open>best\<close>.
\<close>

theorem balance_categories_invalid:
  "(num_cats \<le> 0 \<longrightarrow> balance_categories arr num_cats = []) \<and>
   (int (length arr) < num_cats - 1 \<longrightarrow>
      balance_categories arr num_cats = replicate (nat (num_cats - 1)) 0)"
  by (auto simp: balance_categories_def Let_def bal_cat_rec_out_of_range)

theorem balance_categories_invalid_witness:
  "(0::int) \<le> 0 \<and> balance_categories [1, 2, 3] 0 = [] \<and>
   int (length [1, 2, 3 :: int]) < 5 - 1 \<and> balance_categories [1, 2, 3] 5 = [0, 0, 0, 0]"
  using balance_categories_invalid [of 0 "[1, 2, 3]"]
        balance_categories_invalid [of 5 "[1, 2, 3]"]
  by (simp add: numeral_eq_Suc)

theorem balance_categories_invalid_returns:
  "balance_categories [1, 2, 3] 0 = [] \<and> balance_categories [1, 2, 3] (- 2) = [] \<and>
   balance_categories [1, 2, 3] 5 = [0, 0, 0, 0]"
  by code_simp

section \<open>The partitioner below \<open>sys.maxsize\<close>\<close>

text \<open>
  With \<open>m \<ge> 0\<close> dividers left, \<open>bal_cat_rec\<close> records the candidates of \<open>cands\<close> one
  after the other.
\<close>

lemma bal_cat_rec_enumerates:
  "bal_cat_rec arr (int m) i cur d =
     fold (\<lambda>c. record_candidate arr (cur @ c)) (cands (length arr) m i) d"
proof (induction m arbitrary: i cur d)
  case 0
  show ?case by (subst bal_cat_rec.simps) (simp add: record_candidate_def)
next
  case (Suc m)
  have "bal_cat_rec arr (int (Suc m)) i cur d =
          fold (\<lambda>j. bal_cat_rec arr (int m) (j + 1) (cur @ [j])) [i..<length arr] d"
    by (subst bal_cat_rec.simps) simp
  also have "(\<lambda>j. bal_cat_rec arr (int m) (j + 1) (cur @ [j])) =
             (\<lambda>j. fold (\<lambda>c. record_candidate arr (cur @ c))
                     (map ((#) j) (cands (length arr) m (Suc j))))"
    by (intro ext) (simp add: Suc.IH fold_map comp_def)
  finally show ?case by (simp add: fold_concat_map)
qed

lemma fold_record_candidate:
  fixes arr :: "int list" and cs :: "nat list list" and d :: data
  defines "d' \<equiv> fold (record_candidate arr) cs d"
  shows "top_score d' \<le> top_score d \<and>
         (\<forall>c\<in>set cs. top_score d' \<le> cost arr c) \<and>
         (d' = d \<or>
          (\<exists>pre post. cs = pre @ best d' # post \<and> top_score d' = cost arr (best d') \<and>
             (\<forall>c\<in>set pre. cost arr (best d') < cost arr c)))"
  unfolding d'_def
proof (induction cs rule: rev_induct)
  case Nil
  show ?case by simp
next
  case (snoc c cs)
  define d1 where "d1 = fold (record_candidate arr) cs d"
  have step: "fold (record_candidate arr) (cs @ [c]) d = record_candidate arr c d1"
    by (simp add: d1_def)
  note IH = snoc.IH [folded d1_def]
  show ?case
  proof (cases "cost arr c < top_score d1")
    case True
    then have d2: "record_candidate arr c d1 = d1\<lparr>top_score := cost arr c, best := c\<rparr>"
      by (simp add: record_candidate_def cost_def)
    have "\<forall>x\<in>set cs. cost arr c < cost arr x"
      using IH True by fastforce
    then have "\<exists>pre post. cs @ [c] = pre @ c # post \<and> (\<forall>x\<in>set pre. cost arr c < cost arr x)"
      by blast
    with IH True show ?thesis
      unfolding step d2 by (auto intro: order_trans)
  next
    case False
    then have d2: "record_candidate arr c d1 = d1"
      by (simp add: record_candidate_def cost_def)
    from IH have "d1 = d \<or>
          (\<exists>pre post. cs @ [c] = pre @ best d1 # post \<and> top_score d1 = cost arr (best d1) \<and>
             (\<forall>c\<in>set pre. cost arr (best d1) < cost arr c))"
      by (metis append.assoc append_Cons)
    with IH False show ?thesis
      unfolding step d2 by auto
  qed
qed


text \<open>
  The candidates are the strictly increasing lists of \<open>m\<close> indices drawn from
  \<open>[i, n - 1]\<close>.
\<close>

lemma set_cands:
  "set (cands n m i) = {c. length c = m \<and> sorted_wrt (<) c \<and> (\<forall>b\<in>set c. i \<le> b \<and> b < n)}"
proof (induction m arbitrary: i)
  case 0
  show ?case by auto
next
  case (Suc m)
  show ?case
  proof (intro set_eqI iffI)
    fix c assume "c \<in> set (cands n (Suc m) i)"
    then obtain j c' where "i \<le> j" "j < n" "c = j # c'" "c' \<in> set (cands n m (Suc j))"
      by auto
    then show "c \<in> {c. length c = Suc m \<and> sorted_wrt (<) c \<and> (\<forall>b\<in>set c. i \<le> b \<and> b < n)}"
      by (auto simp: Suc.IH)
  next
    fix c assume "c \<in> {c. length c = Suc m \<and> sorted_wrt (<) c \<and> (\<forall>b\<in>set c. i \<le> b \<and> b < n)}"
    then obtain j c' where c: "c = j # c'" "length c' = m"
      and "sorted_wrt (<) (j # c')" "\<forall>b\<in>set (j # c'). i \<le> b \<and> b < n"
      by (auto simp: length_Suc_conv)
    then have "c' \<in> set (cands n m (Suc j))" "i \<le> j" "j < n"
      by (auto simp: Suc.IH)
    with c show "c \<in> set (cands n (Suc m) i)" by auto
  qed
qed

lemma cands_Suc_rec:
  "cands n (Suc m) i =
     (if i < n then map ((#) i) (cands n m (Suc i)) @ cands n (Suc m) (Suc i) else [])"
  by (simp add: upt_rec [of i n])

lemma sorted_cands_Suc:
  assumes "\<And>i. sorted_wrt (<) (cands n m i)"
  shows "sorted_wrt (<) (cands n (Suc m) i)"
proof (induction "n - i" arbitrary: i)
  case 0
  then show ?case by simp
next
  case (Suc k)
  then have i: "i < n" and k: "k = n - Suc i" by auto
  have head: "sorted_wrt (<) (map ((#) i) (cands n m (Suc i)))"
    using assms [of "Suc i"] by (simp add: sorted_wrt_map)
  have "\<forall>x\<in>set (map ((#) i) (cands n m (Suc i))). \<forall>y\<in>set (cands n (Suc m) (Suc i)). x < y"
    by (auto simp: set_cands length_Suc_conv)
  with head Suc.hyps(1) [OF k] i show ?case
    by (subst cands_Suc_rec) (simp add: sorted_wrt_append)
qed

text \<open>The enumeration is in strictly increasing lexicographic order.\<close>

lemma sorted_cands: "sorted_wrt (<) (cands n m i)"
proof (induction m arbitrary: i)
  case 0
  show ?case by simp
next
  case (Suc m)
  show ?case by (rule sorted_cands_Suc) (rule Suc)
qed

text \<open>The cost of a boundary set, and what one more divider does to it.\<close>

lemma score_zip_cost_from:
  "score (map (\<lambda>(i, j). sum_list (slice arr i j)) (zip (p # bs) (bs @ [length arr])))
     = cost_from arr p bs"
  by (induction bs arbitrary: p) (simp_all add: score_def)

lemma cost_cost_from: "cost arr bs = cost_from arr 0 bs"
  by (simp add: cost_def sum_div_def score_zip_cost_from)

lemma slice_split:
  "p \<le> f \<Longrightarrow> f \<le> b \<Longrightarrow> slice arr p b = slice arr p f @ slice arr f b"
proof -
  assume pf: "p \<le> f" and fb: "f \<le> b"
  have "take b arr = take f arr @ drop f (take b arr)"
    using fb by (metis append_take_drop_id min.absorb1 take_take)
  then have "drop p (take b arr) = drop p (take f arr @ drop f (take b arr))"
    by simp
  also have "\<dots> = drop p (take f arr) @ drop f (take b arr)"
    using pf by (cases "f \<le> length arr") simp_all
  finally show ?thesis by (simp add: slice_def)
qed

lemma sum_slice_nonneg:
  fixes arr :: "int list"
  assumes "\<forall>w\<in>set arr. 0 \<le> w"
  shows "0 \<le> sum_list (slice arr i j)"
proof (rule sum_list_nonneg)
  fix x assume "x \<in> set (slice arr i j)"
  then have "x \<in> set arr"
    by (auto simp: slice_def dest: in_set_dropD in_set_takeD)
  with assms show "0 \<le> x" by simp
qed

lemma squares_le_square_sum:
  fixes a b :: int
  shows "0 \<le> a \<Longrightarrow> 0 \<le> b \<Longrightarrow> a\<^sup>2 + b\<^sup>2 \<le> (a + b)\<^sup>2"
  by (simp add: power2_sum)

lemma split_segment_cost:
  fixes arr :: "int list"
  assumes "\<forall>w\<in>set arr. 0 \<le> w" "p \<le> f" "f \<le> b"
  shows "(sum_list (slice arr p f))\<^sup>2 + (sum_list (slice arr f b))\<^sup>2
           \<le> (sum_list (slice arr p b))\<^sup>2"
  using squares_le_square_sum [OF sum_slice_nonneg [OF assms(1), of p f]
          sum_slice_nonneg [OF assms(1), of f b]]
  by (simp add: slice_split [OF assms(2,3)])

lemma cost_from_insort:
  assumes "\<forall>w\<in>set arr. 0 \<le> w" "f \<le> length arr"
  shows "p \<le> f \<Longrightarrow> cost_from arr p (insort f bs) \<le> cost_from arr p bs"
proof (induction bs arbitrary: p)
  case Nil
  then show ?case
    using split_segment_cost [OF assms(1) Nil assms(2)] by simp
next
  case (Cons b bs)
  show ?case
  proof (cases "f \<le> b")
    case True
    then show ?thesis
      using split_segment_cost [OF assms(1) Cons.prems True] by simp
  next
    case False
    then have "cost_from arr b (insort f bs) \<le> cost_from arr b bs"
      by (intro Cons.IH) simp
    with False show ?thesis by simp
  qed
qed

lemma cost_from_snoc_length:
  "cost_from arr p (bs @ [length arr]) = cost_from arr p bs"
  by (induction bs arbitrary: p) (simp_all add: slice_def)

lemma insort_less_snoc:
  "f \<notin> set bs \<Longrightarrow> f < n \<Longrightarrow> insort f bs < bs @ [n]"
  by (induction bs) auto

lemma free_index:
  assumes "length bs < n" "\<forall>b\<in>set bs. b < n"
  shows "\<exists>f<n. f \<notin> set bs"
proof (rule ccontr)
  assume "\<not> (\<exists>f<n. f \<notin> set bs)"
  then have "{0..<n} \<subseteq> set bs" by auto
  then have "card {0..<n} \<le> card (set bs)" by (intro card_mono) simp_all
  also have "\<dots> \<le> length bs" by (rule card_length)
  finally show False using assms(1) by simp
qed

lemma candidate_for_boundaries:
  assumes nonneg: "\<forall>w\<in>set arr. 0 \<le> w"
    and valid: "valid_boundaries (length arr) m bs" and m: "m \<le> length arr"
  shows "\<exists>c\<in>set (cands (length arr) m 0). cost arr c \<le> cost arr bs \<and> c \<le> bs"
proof (cases "\<forall>b\<in>set bs. b < length arr")
  case True
  with valid have "bs \<in> set (cands (length arr) m 0)"
    by (simp add: set_cands valid_boundaries_def)
  then show ?thesis by auto
next
  case False
  from valid have len: "length bs = m" and sorted: "sorted_wrt (<) bs"
    and le: "\<forall>b\<in>set bs. b \<le> length arr"
    by (simp_all add: valid_boundaries_def list_all_iff)
  from False obtain b where "b \<in> set bs" "\<not> b < length arr" by blast
  with le have b: "b \<in> set bs" "b = length arr"
    by (auto simp: not_less intro: order_antisym)
  then have ne: "bs \<noteq> []" by auto
  define bs' where "bs' = butlast bs"
  have bs: "bs = bs' @ [last bs]" using ne by (simp add: bs'_def)
  have below_last: "\<forall>x\<in>set bs'. x < last bs"
    using sorted by (subst (asm) bs) (simp add: sorted_wrt_append)
  have "last bs = length arr"
  proof -
    from b have "b \<in> set bs' \<or> b = last bs" by (subst (asm) bs) auto
    moreover have "last bs \<le> length arr" using le ne by simp
    ultimately show ?thesis using below_last b(2) by force
  qed
  with bs below_last have bs_eq: "bs = bs' @ [length arr]"
    and below: "\<forall>x\<in>set bs'. x < length arr" by simp_all
  have sorted': "sorted_wrt (<) bs'"
    using sorted by (subst (asm) bs) (simp add: sorted_wrt_append)
  have "0 < length bs" using ne by simp
  then have len': "length bs' < length arr"
    using len m by (simp add: bs'_def)
  from free_index [OF len' below] obtain f where f: "f < length arr" "f \<notin> set bs'"
    by blast
  define c where "c = insort f bs'"
  have "length c = m" using len \<open>0 < length bs\<close> by (simp add: c_def bs'_def)
  moreover have "sorted_wrt (<) c"
    using sorted' f(2) by (simp add: c_def strict_sorted_iff sorted_insort distinct_insort)
  moreover have "\<forall>x\<in>set c. x < length arr"
    using below f(1) by (simp add: c_def set_insort_key)
  ultimately have "c \<in> set (cands (length arr) m 0)"
    by (simp add: set_cands)
  moreover have "cost arr c \<le> cost arr bs"
  proof -
    have "cost arr c \<le> cost_from arr 0 bs'"
      using cost_from_insort [OF nonneg, of f 0 bs'] f(1) by (simp add: cost_cost_from c_def)
    also have "\<dots> = cost arr bs"
      by (subst bs_eq) (simp add: cost_cost_from cost_from_snoc_length)
    finally show ?thesis .
  qed
  moreover have "c < bs"
    by (subst bs_eq) (simp add: c_def insort_less_snoc f)
  ultimately show ?thesis by (auto intro: less_imp_le)
qed


text \<open>
  What the search returns as soon as one boundary set of the specification costs less than
  \<open>sys.maxsize\<close>, for non-negative weights and a valid group count: a valid boundary set
  of least cost, and the lexicographically smallest of those.
\<close>

lemma balance_categories_fold:
  "1 \<le> num_cats \<Longrightarrow>
   balance_categories arr num_cats =
     best (fold (record_candidate arr) (cands (length arr) (nat (num_cats - 1)) 0)
             \<lparr>best = replicate (nat (num_cats - 1)) 0, top_score = maxsize\<rparr>)"
  using bal_cat_rec_enumerates [of arr "nat (num_cats - 1)" 0 "[]"]
  by (simp add: balance_categories_def Let_def)

lemma balance_categories_first_least:
  assumes "1 \<le> num_cats"
    and "c \<in> set (cands (length arr) (nat (num_cats - 1)) 0)" and "cost arr c < maxsize"
  shows "\<exists>pre post.
           cands (length arr) (nat (num_cats - 1)) 0 = pre @ balance_categories arr num_cats # post \<and>
           (\<forall>x\<in>set pre. cost arr (balance_categories arr num_cats) < cost arr x) \<and>
           (\<forall>x\<in>set (cands (length arr) (nat (num_cats - 1)) 0).
              cost arr (balance_categories arr num_cats) \<le> cost arr x)"
proof -
  define d0 :: data where "d0 = \<lparr>best = replicate (nat (num_cats - 1)) 0, top_score = maxsize\<rparr>"
  define cs where "cs = cands (length arr) (nat (num_cats - 1)) 0"
  define d' where "d' = fold (record_candidate arr) cs d0"
  have res: "balance_categories arr num_cats = best d'"
    using assms(1) by (simp add: balance_categories_fold d'_def cs_def d0_def)
  note F = fold_record_candidate [of arr cs d0, folded d'_def]
  have "c \<in> set cs" using assms(2) by (simp add: cs_def)
  with F have "top_score d' \<le> cost arr c" by blast
  also have "cost arr c < top_score d0" using assms(3) by (simp add: d0_def)
  finally have "d' \<noteq> d0" by auto
  with F obtain pre post where split: "cs = pre @ best d' # post"
    and top: "top_score d' = cost arr (best d')"
    and pre: "\<forall>x\<in>set pre. cost arr (best d') < cost arr x"
    by blast
  from F have "\<forall>x\<in>set cs. top_score d' \<le> cost arr x" by blast
  then have "\<forall>x\<in>set cs. cost arr (best d') \<le> cost arr x" by (simp add: top)
  with split pre show ?thesis
    unfolding res cs_def [symmetric] by blast
qed

lemma balance_categories_below_maxsize:
  assumes nonneg: "\<forall>w\<in>set arr. 0 \<le> w"
    and cats: "1 \<le> num_cats" "num_cats \<le> int (length arr) + 1"
    and valid: "valid_boundaries (length arr) (nat (num_cats - 1)) bs"
    and below: "cost arr bs < maxsize"
  shows "valid_boundaries (length arr) (nat (num_cats - 1)) (balance_categories arr num_cats)"
    and "cost arr (balance_categories arr num_cats) \<le> cost arr bs"
    and "cost arr bs \<le> cost arr (balance_categories arr num_cats) \<Longrightarrow>
         balance_categories arr num_cats \<le> bs"
proof -
  define res where "res = balance_categories arr num_cats"
  define cs where "cs = cands (length arr) (nat (num_cats - 1)) 0"
  from cats have "nat (num_cats - 1) \<le> length arr" by simp
  from candidate_for_boundaries [OF nonneg valid this]
  obtain c where c: "c \<in> set cs" "cost arr c \<le> cost arr bs" "c \<le> bs"
    by (auto simp: cs_def)
  with below have "cost arr c < maxsize" by simp
  from balance_categories_first_least [OF cats(1) c(1) [unfolded cs_def] this]
  obtain pre post where split: "cs = pre @ res # post"
    and pre: "\<forall>x\<in>set pre. cost arr res < cost arr x"
    and least: "\<forall>x\<in>set cs. cost arr res \<le> cost arr x"
    by (auto simp: cs_def res_def)
  from split have "res \<in> set cs" by simp
  then show "valid_boundaries (length arr) (nat (num_cats - 1)) (balance_categories arr num_cats)"
    by (auto simp: cs_def res_def set_cands valid_boundaries_def list_all_iff intro: less_imp_le)
  from least c show "cost arr (balance_categories arr num_cats) \<le> cost arr bs"
    by (auto simp: res_def)
  show "balance_categories arr num_cats \<le> bs"
    if "cost arr bs \<le> cost arr (balance_categories arr num_cats)"
  proof -
    from that c(2) have "\<not> cost arr res < cost arr c" by (simp add: res_def)
    with pre have "c \<notin> set pre" by blast
    with c(1) split have "c = res \<or> c \<in> set post" by auto
    moreover have "\<forall>x\<in>set post. res < x"
      using sorted_cands [of "length arr" "nat (num_cats - 1)" 0]
      by (simp add: cs_def [symmetric] split sorted_wrt_append)
    ultimately have "res \<le> c" by auto
    with c(3) show ?thesis by (simp add: res_def)
  qed
qed

section \<open>The partitioner beyond \<open>sys.maxsize\<close>\<close>

text \<open>
  Claim C1, at weights \<open>[2^32, 2^32]\<close> and two groups. Both candidates cost at least
  \<open>2^63 - 1\<close>, the initial \<open>top_score\<close>, so none is recorded and the initial \<open>best\<close>,
  \<open>[0]\<close>, is returned. Its cost is \<open>2^66\<close>; the valid boundary set \<open>[1]\<close> costs \<open>2^65\<close>.
  Below \<open>sys.maxsize\<close> the returned cost is the least (\<open>balance_categories_below_maxsize\<close>).
\<close>

theorem balance_categories_not_optimal:
  "balance_categories [2 ^ 32, 2 ^ 32] 2 = [0] \<and>
   valid_boundaries 2 1 [1] \<and>
   cost [2 ^ 32, 2 ^ 32] [1] < cost [2 ^ 32, 2 ^ 32] (balance_categories [2 ^ 32, 2 ^ 32] 2)"
  by code_simp

text \<open>
  Claim C5, at weights \<open>[2^32, 0, 2^32]\<close> and two groups. The boundary sets \<open>[1]\<close> and
  \<open>[2]\<close> share the least cost, \<open>2^65\<close>, which is below the cost of \<open>[0]\<close> and of \<open>[3]\<close>.
  The call returns \<open>[0]\<close>, not the lexicographically smallest optimum \<open>[1]\<close>. At the
  specification's example, weights \<open>[1,1,1,1]\<close> and two groups, it returns \<open>[2]\<close>.
  Below \<open>sys.maxsize\<close> the first optimum in lexicographic order is returned
  (\<open>balance_categories_below_maxsize\<close>).
\<close>

theorem balance_categories_tie_break_lost:
  "balance_categories [2 ^ 32, 0, 2 ^ 32] 2 = [0] \<and>
   cost [2 ^ 32, 0, 2 ^ 32] [1] = cost [2 ^ 32, 0, 2 ^ 32] [2] \<and>
   cost [2 ^ 32, 0, 2 ^ 32] [1] < cost [2 ^ 32, 0, 2 ^ 32] [0] \<and>
   cost [2 ^ 32, 0, 2 ^ 32] [1] < cost [2 ^ 32, 0, 2 ^ 32] [3] \<and>
   balance_categories [1, 1, 1, 1] 2 = [2]"
  by code_simp

text \<open>
  Claim C6, at weights \<open>[2^32, 2^32]\<close> and three groups. The only candidate, \<open>(0, 1)\<close>,
  costs \<open>2^65\<close>, so the initial \<open>best\<close> is returned: \<open>[0, 0]\<close>, which has the right
  length and lies in \<open>[0, n]\<close> but is not strictly increasing. Below \<open>sys.maxsize\<close> the
  result is strictly increasing (\<open>balance_categories_below_maxsize\<close>); its length is
  \<open>groupCount - 1\<close> on every input (\<open>length_balance_categories\<close>).
\<close>

theorem balance_categories_not_increasing:
  "balance_categories [2 ^ 32, 2 ^ 32] 3 = [0, 0] \<and>
   \<not> sorted_wrt (<) (balance_categories [2 ^ 32, 2 ^ 32] 3)"
  by code_simp

end
